theory Spec2Isabelle
  imports Main
begin

section \<open>Tic-tac-toe: the board, the two players and the turn loop of main.py\<close>

text \<open>
  The program keeps a 3x3 grid of one-character strings in a list of lists. A cell holding
  the string of one blank is empty; the two players write \<open>''X''\<close> and \<open>''O''\<close>. Every
  exception the program can raise is a value of \<open>error\<close>; a method that mutates the
  board returns its outcome together with the board it leaves behind, so that a raise keeps
  the board. Console output (the calls of print) is not part of the model.
\<close>

datatype error = IndexError | CellIsNotEmptyError | UnboundLocalError | EOFError

type_synonym board = "string list list"

subsection \<open>Python list indexing\<close>

text \<open>
  A Python list of length \<open>n\<close> accepts the indices \<open>-n .. n - 1\<close>; a negative index counts
  from the end; any other index raises IndexError.
\<close>

definition norm_index :: "nat \<Rightarrow> int \<Rightarrow> nat option" where
  "norm_index n i =
     (if 0 \<le> i \<and> i < int n then Some (nat i)
      else if - int n \<le> i \<and> i < 0 then Some (nat (i + int n))
      else None)"

definition getitem :: "'a list \<Rightarrow> int \<Rightarrow> error + 'a" where
  "getitem xs i =
     (case norm_index (length xs) i of None \<Rightarrow> Inl IndexError | Some k \<Rightarrow> Inr (xs ! k))"

definition setitem :: "'a list \<Rightarrow> int \<Rightarrow> 'a \<Rightarrow> error + 'a list" where
  "setitem xs i v =
     (case norm_index (length xs) i of None \<Rightarrow> Inl IndexError | Some k \<Rightarrow> Inr (xs[k := v]))"

definition range3 :: "int list" where
  "range3 = [0, 1, 2]"

subsection \<open>Board\<close>

text \<open>\<open>Board.__post_init__\<close>: three rows of three blanks.\<close>

definition new_board :: board where
  "new_board = map (\<lambda>_. map (\<lambda>_. '' '') range3) range3"

text \<open>The shape the constructor builds and every method keeps.\<close>

definition wf_board :: "board \<Rightarrow> bool" where
  "wf_board b = (length b = 3 \<and> list_all (\<lambda>row. length row = 3) b)"

text \<open>\<open>Board.is_full\<close>: iterates over the rows and their cells, no indexing.\<close>

definition is_full :: "board \<Rightarrow> bool" where
  "is_full b = list_all (\<lambda>row. list_all (\<lambda>spot. spot \<noteq> '' '') row) b"

text \<open>The expression \<open>self._board[row][col]\<close>.\<close>

definition cell :: "board \<Rightarrow> int \<Rightarrow> int \<Rightarrow> error + string" where
  "cell b row col = (case getitem b row of Inl e \<Rightarrow> Inl e | Inr r \<Rightarrow> getitem r col)"

text \<open>\<open>Board.is_cell_empty\<close>.\<close>

definition is_cell_empty :: "board \<Rightarrow> int \<Rightarrow> int \<Rightarrow> error + bool" where
  "is_cell_empty b row col =
     (case cell b row col of Inl e \<Rightarrow> Inl e | Inr v \<Rightarrow> Inr (v = '' ''))"

text \<open>
  \<open>Board.get_empty_spots\<close>: the comprehension visits \<open>(i, j)\<close> for \<open>i\<close> in range(3) and,
  inside, \<open>j\<close> in range(3), reads the cell and keeps the pair when the cell is blank.
\<close>

fun empty_among :: "board \<Rightarrow> (int \<times> int) list \<Rightarrow> error + (int \<times> int) list" where
  "empty_among b [] = Inr []"
| "empty_among b ((i, j) # ps) =
     (case cell b i j of
        Inl e \<Rightarrow> Inl e
      | Inr v \<Rightarrow>
          (case empty_among b ps of
             Inl e \<Rightarrow> Inl e
           | Inr found \<Rightarrow> Inr (if v = '' '' then (i, j) # found else found)))"

definition get_empty_spots :: "board \<Rightarrow> error + (int \<times> int) list" where
  "get_empty_spots b = empty_among b [(i, j). i \<leftarrow> range3, j \<leftarrow> range3]"

text \<open>The assignment \<open>self._board[row][col] = value\<close>.\<close>

definition store_cell :: "board \<Rightarrow> int \<Rightarrow> int \<Rightarrow> string \<Rightarrow> error + board" where
  "store_cell b row col v =
     (case norm_index (length b) row of
        None \<Rightarrow> Inl IndexError
      | Some i \<Rightarrow>
          (case setitem (b ! i) col v of Inl e \<Rightarrow> Inl e | Inr r \<Rightarrow> Inr (b[i := r])))"

text \<open>\<open>Board.set_cell_value\<close>: the outcome and the board afterwards.\<close>

definition set_cell_value ::
  "board \<Rightarrow> int \<Rightarrow> int \<Rightarrow> string \<Rightarrow> (error + int \<times> int) \<times> board" where
  "set_cell_value b row col v =
     (case is_cell_empty b row col of
        Inl e \<Rightarrow> (Inl e, b)
      | Inr free \<Rightarrow>
          if \<not> free then (Inl CellIsNotEmptyError, b)
          else (case store_cell b row col v of
                  Inl e \<Rightarrow> (Inl e, b)
                | Inr b' \<Rightarrow> (Inr (row, col), b')))"

text \<open>
  \<open>Board.check_winner\<close>. \<open>all_at\<close> is a chain of cell comparisons that stops at the first
  cell that differs, as \<open>all\<close> over a generator and \<open>and\<close> do.
\<close>

fun all_at :: "board \<Rightarrow> string \<Rightarrow> (int \<times> int) list \<Rightarrow> error + bool" where
  "all_at b pv [] = Inr True"
| "all_at b pv ((r, c) # ps) =
     (case cell b r c of
        Inl e \<Rightarrow> Inl e
      | Inr v \<Rightarrow> if v = pv then all_at b pv ps else Inr False)"

fun rows_cols :: "board \<Rightarrow> string \<Rightarrow> int list \<Rightarrow> error + bool" where
  "rows_cols b pv [] = Inr False"
| "rows_cols b pv (i # rest) =
     (case getitem b i of
        Inl e \<Rightarrow> Inl e
      | Inr row \<Rightarrow>
          if list_all (\<lambda>spot. spot = pv) row then Inr True
          else (case all_at b pv [(j, i). j \<leftarrow> range3] of
                  Inl e \<Rightarrow> Inl e
                | Inr won \<Rightarrow> if won then Inr True else rows_cols b pv rest))"

definition check_winner :: "board \<Rightarrow> string \<Rightarrow> error + bool" where
  "check_winner b player_value =
     (case rows_cols b player_value range3 of
        Inl e \<Rightarrow> Inl e
      | Inr won \<Rightarrow>
          if won then Inr True
          else (case all_at b player_value [(0, 0), (1, 1), (2, 2)] of
                  Inl e \<Rightarrow> Inl e
                | Inr d1 \<Rightarrow>
                    if d1 then Inr True
                    else (case all_at b player_value [(0, 2), (1, 1), (2, 0)] of
                            Inl e \<Rightarrow> Inl e
                          | Inr d2 \<Rightarrow> if d2 then Inr True else Inr False)))"

subsection \<open>Reading a move from a line of text\<close>

text \<open>
  \<open>input(message).split()\<close> cuts the line at runs of whitespace, and \<open>int\<close> reads an optional
  sign followed by decimal digits, where single underscores may stand between digits; it
  raises ValueError on more than 4300 digits. A \<open>char\<close> is a code point below 256: the
  whitespace among them is 9..13, 28..32, 133 and 160, and the decimal digits are 48..57.
\<close>

definition is_space :: "char \<Rightarrow> bool" where
  "is_space ch =
     (let n = (of_char ch :: nat)
      in (9 \<le> n \<and> n \<le> 13) \<or> (28 \<le> n \<and> n \<le> 32) \<or> n = 133 \<or> n = 160)"

fun split_from :: "string \<Rightarrow> string \<Rightarrow> string list" where
  "split_from tok [] = (if tok = [] then [] else [tok])"
| "split_from tok (ch # rest) =
     (if is_space ch then (if tok = [] then split_from [] rest else tok # split_from [] rest)
      else split_from (tok @ [ch]) rest)"

definition py_split :: "string \<Rightarrow> string list" where
  "py_split s = split_from [] s"

definition is_digit :: "char \<Rightarrow> bool" where
  "is_digit ch = (let n = (of_char ch :: nat) in 48 \<le> n \<and> n \<le> 57)"

definition digit_of :: "char \<Rightarrow> nat" where
  "digit_of ch = of_char ch - 48"

fun digits_from :: "nat \<Rightarrow> string \<Rightarrow> nat option" where
  "digits_from acc [] = Some acc"
| "digits_from acc (ch # rest) =
     (if is_digit ch then digits_from (10 * acc + digit_of ch) rest
      else if ch = CHR ''_'' \<and> rest \<noteq> [] \<and> is_digit (hd rest) then digits_from acc rest
      else None)"

definition int_max_str_digits :: nat where
  "int_max_str_digits = 4300"

definition py_digits :: "string \<Rightarrow> nat option" where
  "py_digits s =
     (if s \<noteq> [] \<and> is_digit (hd s) \<and> length (filter is_digit s) \<le> int_max_str_digits
      then digits_from 0 s else None)"

definition py_int :: "string \<Rightarrow> int option" where
  "py_int s =
     (case s of
        [] \<Rightarrow> None
      | ch # rest \<Rightarrow>
          if ch = CHR ''-'' then map_option (\<lambda>n. - int n) (py_digits rest)
          else if ch = CHR ''+'' then map_option int (py_digits rest)
          else map_option int (py_digits s))"

text \<open>
  \<open>row, col = map(int, input(message).split())\<close>: every failure here (a token that is no
  integer, fewer or more than two tokens) is a ValueError, which the loop catches; it is the
  value \<open>None\<close>, and nothing is assigned then.
\<close>

definition read_move :: "string \<Rightarrow> (int \<times> int) option" where
  "read_move line =
     (case map py_int (py_split line) of [Some row, Some col] \<Rightarrow> Some (row, col) | _ \<Rightarrow> None)"

subsection \<open>Players\<close>

text \<open>
  \<open>Player.move\<close>. The input is the list of lines still to be read; \<open>input\<close> raises EOFError
  when none is left. The second argument holds the local variables \<open>row\<close> and \<open>col\<close>: \<open>None\<close>
  while they are unbound. After a caught ValueError the loop body goes on to the occupancy
  check with the variables as they are.
\<close>

fun Player_move_loop ::
  "board \<Rightarrow> (int \<times> int) option \<Rightarrow> string list \<Rightarrow> (error + int \<times> int) \<times> string list" where
  "Player_move_loop b vars [] = (Inl EOFError, [])"
| "Player_move_loop b vars (line # rest) =
     (let vars' = (case read_move line of Some rc \<Rightarrow> Some rc | None \<Rightarrow> vars) in
      case vars' of
        None \<Rightarrow> (Inl UnboundLocalError, rest)
      | Some (row, col) \<Rightarrow>
          (case is_cell_empty b row col of
             Inl e \<Rightarrow> (Inl e, rest)
           | Inr free \<Rightarrow>
               if \<not> free then Player_move_loop b vars' rest else (Inr (row, col), rest)))"

definition Player_move :: "board \<Rightarrow> string list \<Rightarrow> (error + int \<times> int) \<times> string list" where
  "Player_move b lines = Player_move_loop b None lines"

text \<open>
  \<open>random.choice(seq)\<close> is \<open>seq[randbelow(len(seq))]\<close> and raises IndexError on an empty
  sequence. The number \<open>rnd\<close> stands for the state of the random source: \<open>randbelow n\<close>
  is \<open>rnd mod n\<close>, so every index below \<open>n\<close> is the draw of some \<open>rnd\<close>.
\<close>

definition choice :: "nat \<Rightarrow> 'a list \<Rightarrow> error + 'a" where
  "choice rnd xs = (if xs = [] then Inl IndexError else Inr (xs ! (rnd mod length xs)))"

text \<open>\<open>CPUPlayer.move\<close>.\<close>

definition CPUPlayer_move :: "nat \<Rightarrow> board \<Rightarrow> error + int \<times> int" where
  "CPUPlayer_move rnd b =
     (case get_empty_spots b of Inl e \<Rightarrow> Inl e | Inr empty_spots \<Rightarrow> choice rnd empty_spots)"

subsection \<open>The session\<close>

definition PLAYERS_VALUES :: "string list" where
  "PLAYERS_VALUES = [''X'', ''O'']"

text \<open>
  \<open>random.shuffle\<close> on a list of two elements makes one draw \<open>j = randbelow(2)\<close> and swaps
  the elements at 1 and \<open>j\<close>.
\<close>

definition shuffle2 :: "nat \<Rightarrow> 'a list \<Rightarrow> 'a list" where
  "shuffle2 rnd xs = (let j = rnd mod 2 in xs[1 := xs ! j, j := xs ! 1])"

definition get_shuffled_players :: "nat \<Rightarrow> string list" where
  "get_shuffled_players rnd = shuffle2 rnd PLAYERS_VALUES"

datatype player = Human | CPU

record game =
  human_value :: string
  cpu_value :: string
  current_player :: player
  board :: board

definition player_value :: "game \<Rightarrow> player \<Rightarrow> string" where
  "player_value g p = (case p of Human \<Rightarrow> human_value g | CPU \<Rightarrow> cpu_value g)"

text \<open>The start of \<open>main\<close>, up to the loop: two shuffles, the two players, who begins.\<close>

definition main_start :: "nat \<Rightarrow> nat \<Rightarrow> game" where
  "main_start rnd1 rnd2 =
     (let shuffled_values = shuffle2 rnd2 (get_shuffled_players rnd1);
          hv = shuffled_values ! 0;
          cv = shuffled_values ! 1
      in \<lparr>human_value = hv, cpu_value = cv,
          current_player = (if hv = ''X'' then Human else CPU),
          board = new_board\<rparr>)"

text \<open>
  One pass of the loop of \<open>main\<close>, from the move the current player has returned. The loop
  either raises, or breaks after a win or on a full board, or goes on with the other player.
\<close>

datatype control = AwaitingMove player | Won string | Draw

definition turn :: "game \<Rightarrow> int \<times> int \<Rightarrow> (error + control) \<times> game" where
  "turn g rc =
     (let v = player_value g (current_player g) in
      case set_cell_value (board g) (fst rc) (snd rc) v of
        (Inl e, b') \<Rightarrow> (Inl e, g\<lparr>board := b'\<rparr>)
      | (Inr _, b') \<Rightarrow>
          (case check_winner b' v of
             Inl e \<Rightarrow> (Inl e, g\<lparr>board := b'\<rparr>)
           | Inr won \<Rightarrow>
               if won then (Inr (Won v), g\<lparr>board := b'\<rparr>)
               else if is_full b' then (Inr Draw, g\<lparr>board := b'\<rparr>)
               else (let other = (if current_player g = CPU then Human else CPU)
                     in (Inr (AwaitingMove other), g\<lparr>board := b', current_player := other\<rparr>))))"

text \<open>
  The call \<open>current_player.move(board)\<close>: \<open>main\<close> creates one \<open>Player\<close> and one
  \<open>CPUPlayer\<close>, and the call goes to the method of the class of the current player. The
  human reads from the input lines, the machine draws from the random source.
\<close>

definition current_move ::
  "game \<Rightarrow> nat \<Rightarrow> string list \<Rightarrow> (error + int \<times> int) \<times> string list" where
  "current_move g rnd lines =
     (case current_player g of
        Human \<Rightarrow> Player_move (board g) lines
      | CPU \<Rightarrow> (CPUPlayer_move rnd (board g), lines))"

text \<open>
  One whole pass of the loop of \<open>main\<close>: the move of the current player, then the
  placement and the checks. An exception raised by the move leaves the loop at once.
\<close>

definition main_pass ::
  "game \<Rightarrow> nat \<Rightarrow> string list \<Rightarrow> ((error + control) \<times> game) \<times> string list" where
  "main_pass g rnd lines =
     (case current_move g rnd lines of
        (Inl e, rest) \<Rightarrow> ((Inl e, g), rest)
      | (Inr rc, rest) \<Rightarrow> (turn g rc, rest))"

subsection \<open>Notions used to state the properties\<close>

text \<open>The eight lines of the grid: three rows, three columns, two diagonals.\<close>

definition win_lines :: "(int \<times> int) list list" where
  "win_lines =
     [[(0, 0), (0, 1), (0, 2)], [(1, 0), (1, 1), (1, 2)], [(2, 0), (2, 1), (2, 2)],
      [(0, 0), (1, 0), (2, 0)], [(0, 1), (1, 1), (2, 1)], [(0, 2), (1, 2), (2, 2)],
      [(0, 0), (1, 1), (2, 2)], [(0, 2), (1, 1), (2, 0)]]"

definition holds_line :: "board \<Rightarrow> string \<Rightarrow> (int \<times> int) list \<Rightarrow> bool" where
  "holds_line b mark l = list_all (\<lambda>(r, c). cell b r c = Inr mark) l"

definition count_mark :: "board \<Rightarrow> string \<Rightarrow> nat" where
  "count_mark b mark = length (filter (\<lambda>v. v = mark) (concat b))"

text \<open>The nine coordinates, row by row.\<close>

definition all_spots :: "(int \<times> int) list" where
  "all_spots = [(0, 0), (0, 1), (0, 2), (1, 0), (1, 1), (1, 2), (2, 0), (2, 1), (2, 2)]"

definition in_range :: "int \<Rightarrow> bool" where
  "in_range i = (0 \<le> i \<and> i \<le> 2)"

text \<open>A sequence of placements, stopped by the first one that raises.\<close>

fun place_all :: "board \<Rightarrow> (int \<times> int \<times> string) list \<Rightarrow> (error + unit) \<times> board" where
  "place_all b [] = (Inr (), b)"
| "place_all b ((row, col, v) # ps) =
     (case set_cell_value b row col v of
        (Inl e, b') \<Rightarrow> (Inl e, b')
      | (Inr _, b') \<Rightarrow> place_all b' ps)"

text \<open>A position after five moves, X holding the diagonal.\<close>

definition demo_board :: board where
  "demo_board = [[''X'', ''O'', '' ''], ['' '', ''X'', '' ''], [''O'', '' '', ''X'']]"

text \<open>Row-major order: an earlier row, or the same row and an earlier column.\<close>

definition row_major :: "int \<times> int \<Rightarrow> int \<times> int \<Rightarrow> bool" where
  "row_major p q = (fst p < fst q \<or> (fst p = fst q \<and> snd p < snd q))"

text \<open>A placement of the game: a coordinate of the grid and one of the two marks.\<close>

definition spot_of :: "int \<times> int \<times> string \<Rightarrow> int \<times> int" where
  "spot_of p = (fst p, fst (snd p))"

definition valid_placement :: "int \<times> int \<times> string \<Rightarrow> bool" where
  "valid_placement p =
     (in_range (fst p) \<and> in_range (fst (snd p)) \<and> snd (snd p) \<in> {''X'', ''O''})"

text \<open>Nine placements, X and O in turn, that fill the grid and complete no line.\<close>

definition demo_moves :: "(int \<times> int \<times> string) list" where
  "demo_moves =
     [(0, 0, ''X''), (0, 1, ''O''), (0, 2, ''X''), (1, 1, ''O''), (1, 0, ''X''),
      (1, 2, ''O''), (2, 1, ''X''), (2, 0, ''O''), (2, 2, ''X'')]"

text \<open>
  The states in which the loop of \<open>main\<close> waits for a move: the state at the start and
  every state a pass of the loop goes on from.
\<close>

inductive reachable :: "game \<Rightarrow> bool" where
  start: "reachable (main_start rnd1 rnd2)"
| step: "reachable g \<Longrightarrow> main_pass g rnd lines = ((Inr (AwaitingMove p), g'), rest) \<Longrightarrow>
         reachable g'"


section \<open>Properties\<close>

subsection \<open>The shape of the board and Python indices on it\<close>

lemma list3: "length xs = 3 \<Longrightarrow> \<exists>a b c. xs = [a, b, c]"
  by (auto simp: length_Suc_conv numeral_3_eq_3)

lemma wf_board_shape:
  assumes "wf_board b"
  obtains a0 a1 a2 b0 b1 b2 c0 c1 c2 where "b = [[a0, a1, a2], [b0, b1, b2], [c0, c1, c2]]"
proof -
  from assms obtain r0 r1 r2 where b: "b = [r0, r1, r2]"
    using list3 [of b] by (auto simp: wf_board_def)
  with assms have "length r0 = 3" "length r1 = 3" "length r2 = 3"
    by (simp_all add: wf_board_def)
  then show thesis using list3 [of r0] list3 [of r1] list3 [of r2] b that by blast
qed

lemmas cell_simps = cell_def getitem_def norm_index_def range3_def

lemma new_board_grid:
  "new_board = [['' '', '' '', '' ''], ['' '', '' '', '' ''], ['' '', '' '', '' '']]"
  by (simp add: new_board_def range3_def)

lemma wf_new_board: "wf_board new_board"
  by (simp add: new_board_def wf_board_def range3_def)

lemma wf_demo_board: "wf_board demo_board"
  by (simp add: wf_board_def demo_board_def)

lemma in_range_cases: "in_range i \<longleftrightarrow> i = 0 \<or> i = 1 \<or> i = 2"
  unfolding in_range_def by arith

lemma in_range_all_spots: "in_range r \<and> in_range c \<longleftrightarrow> (r, c) \<in> set all_spots"
  unfolding in_range_cases all_spots_def by auto

lemma in_range_nat: "in_range i \<Longrightarrow> nat i < 3"
  unfolding in_range_def by arith

lemma norm_index_bound: "norm_index n i = Some k \<Longrightarrow> k < n"
  by (auto simp: norm_index_def split: if_splits)

lemma norm_index_in_range: "in_range i \<Longrightarrow> norm_index 3 i = Some (nat i)"
  by (auto simp: norm_index_def in_range_def)

lemma norm_index_outside: "i < - 3 \<or> 2 < i \<Longrightarrow> norm_index 3 i = None"
  by (auto simp: norm_index_def)

lemma wf_row: "wf_board b \<Longrightarrow> i < 3 \<Longrightarrow> length (b ! i) = 3"
  by (simp add: wf_board_def list_all_length)

lemma cell_norm:
  "cell b r c =
     (case norm_index (length b) r of
        None \<Rightarrow> Inl IndexError
      | Some i \<Rightarrow> (case norm_index (length (b ! i)) c of
                     None \<Rightarrow> Inl IndexError
                   | Some j \<Rightarrow> Inr (b ! i ! j)))"
  by (simp add: cell_def getitem_def split: option.splits)

lemma cell_in_range:
  assumes "wf_board b" "in_range r" "in_range c"
  shows "cell b r c = Inr (b ! nat r ! nat c)"
proof -
  have "nat r < 3" using assms(2) by (rule in_range_nat)
  then show ?thesis
    using assms wf_row [of b "nat r"]
    by (simp add: cell_norm wf_board_def norm_index_in_range)
qed

lemma cell_outside:
  assumes "wf_board b" "row < - 3 \<or> 2 < row \<or> col < - 3 \<or> 2 < col"
  shows "cell b row col = Inl IndexError"
proof (cases "norm_index 3 row")
  case None
  then show ?thesis using assms(1) by (simp add: cell_norm wf_board_def)
next
  case (Some i)
  then have "i < 3" by (rule norm_index_bound)
  moreover from Some assms(2) have "col < - 3 \<or> 2 < col"
    using norm_index_outside [of row] by auto
  ultimately show ?thesis
    using assms(1) Some wf_row [of b i]
    by (simp add: cell_norm wf_board_def norm_index_outside)
qed

subsection \<open>Placement\<close>

lemma set_cell_value_error:
  "cell b row col = Inl e \<Longrightarrow> set_cell_value b row col v = (Inl e, b)"
  by (simp add: set_cell_value_def is_cell_empty_def)

lemma set_cell_value_occupied:
  "cell b row col = Inr x \<Longrightarrow> x \<noteq> '' '' \<Longrightarrow>
   set_cell_value b row col v = (Inl CellIsNotEmptyError, b)"
  by (simp add: set_cell_value_def is_cell_empty_def)

text \<open>A placement either raises and keeps the board, or writes one cell that was blank.\<close>

lemma set_cell_value_cases:
  "(\<exists>e. set_cell_value b r c v = (Inl e, b)) \<or>
   (\<exists>i j. norm_index (length b) r = Some i \<and> norm_index (length (b ! i)) c = Some j
        \<and> b ! i ! j = '' '' \<and> set_cell_value b r c v = (Inr (r, c), b[i := (b ! i)[j := v]]))"
  by (auto simp: set_cell_value_def is_cell_empty_def cell_norm store_cell_def setitem_def
           split: option.splits)

lemma set_cell_value_empty:
  assumes "wf_board b" "in_range r" "in_range c" "cell b r c = Inr '' ''"
  shows "set_cell_value b r c v = (Inr (r, c), b[nat r := (b ! nat r)[nat c := v]])"
proof -
  have "nat r < 3" using assms(2) by (rule in_range_nat)
  then show ?thesis
    using assms wf_row [of b "nat r"]
    by (simp add: set_cell_value_def is_cell_empty_def store_cell_def setitem_def wf_board_def
        norm_index_in_range)
qed

lemma wf_board_update:
  assumes "wf_board b" "i < 3"
  shows "wf_board (b[i := (b ! i)[j := v]])"
  using assms by (auto simp: wf_board_def list_all_length nth_list_update)

text \<open>The 3x3 shape is an invariant of the only mutating method.\<close>

lemma set_cell_value_wf:
  assumes "wf_board b"
  shows "wf_board (snd (set_cell_value b r c v))"
  using set_cell_value_cases [of b r c v]
proof (elim disjE exE conjE)
  fix e assume "set_cell_value b r c v = (Inl e, b)"
  with assms show ?thesis by simp
next
  fix i j
  assume i: "norm_index (length b) r = Some i"
    and res: "set_cell_value b r c v = (Inr (r, c), b[i := (b ! i)[j := v]])"
  have "i < 3" using norm_index_bound [OF i] assms by (simp add: wf_board_def)
  with assms res show ?thesis by (simp add: wf_board_update)
qed

text \<open>
  Claim C2. On a 3x3 board, a placement at an in-range coordinate whose cell is not blank
  raises CellIsNotEmptyError and leaves the board as it was, whatever the mark; and no
  placement at all, at any coordinate \<open>(r, c)\<close> with any value \<open>v\<close>, changes a cell that is
  not blank.
\<close>

theorem occupied_cell_rejected:
  assumes "wf_board b" and "in_range row" and "in_range col" and "cell b row col \<noteq> Inr '' ''"
  shows "set_cell_value b row col mark = (Inl CellIsNotEmptyError, b)
       \<and> cell (snd (set_cell_value b r c v)) row col = cell b row col"
proof
  from assms have occ:
    "cell b row col = Inr (b ! nat row ! nat col)" "b ! nat row ! nat col \<noteq> '' ''"
    by (simp_all add: cell_in_range)
  then show "set_cell_value b row col mark = (Inl CellIsNotEmptyError, b)"
    by (rule set_cell_value_occupied)
  from set_cell_value_cases [of b r c v]
  show "cell (snd (set_cell_value b r c v)) row col = cell b row col"
  proof (elim disjE exE conjE)
    fix e assume "set_cell_value b r c v = (Inl e, b)"
    then show ?thesis by simp
  next
    fix i j
    assume i: "norm_index (length b) r = Some i"
      and blank: "b ! i ! j = '' ''"
      and res: "set_cell_value b r c v = (Inr (r, c), b[i := (b ! i)[j := v]])"
    let ?b' = "b[i := (b ! i)[j := v]]"
    have "i < 3" using norm_index_bound [OF i] assms(1) by (simp add: wf_board_def)
    then have wf': "wf_board ?b'" using assms(1) by (rule wf_board_update [rotated])
    have "?b' ! nat row ! nat col = b ! nat row ! nat col"
    proof (cases "nat row = i")
      case True
      with blank occ(2) have "nat col \<noteq> j" by auto
      with True \<open>i < 3\<close> assms(1) show ?thesis by (simp add: wf_board_def)
    next
      case False
      then show ?thesis by simp
    qed
    then show ?thesis
      using res cell_in_range [OF wf' assms(2,3)] occ(1) by simp
  qed
qed

theorem occupied_cell_rejected_witness:
  "wf_board demo_board \<and> in_range 0 \<and> cell demo_board 0 0 \<noteq> Inr '' ''
   \<and> set_cell_value demo_board 0 0 ''O'' = (Inl CellIsNotEmptyError, demo_board)
   \<and> cell (snd (set_cell_value demo_board 0 2 ''O'')) 0 0 = cell demo_board 0 0"
proof -
  have r: "in_range 0" by (simp add: in_range_def)
  have c: "cell demo_board 0 0 \<noteq> Inr '' ''" by (simp add: demo_board_def cell_simps)
  show ?thesis
    using occupied_cell_rejected [OF wf_demo_board r r c, of "''O''" 0 2 "''O''"]
      wf_demo_board r c
    by simp
qed

text \<open>
  Claim C4, as the code has it. The board checks no range: a coordinate with the row or
  the column below -3 or above 2 makes the cell read raise IndexError, which is another
  error than CellIsNotEmptyError, and the board stays as it was.
\<close>

theorem out_of_range_index_error:
  assumes "wf_board b" and "row < - 3 \<or> 2 < row \<or> col < - 3 \<or> 2 < col"
  shows "set_cell_value b row col mark = (Inl IndexError, b)
       \<and> fst (set_cell_value b row col mark) \<noteq> Inl CellIsNotEmptyError"
  using set_cell_value_error [OF cell_outside [OF assms]] by simp

theorem out_of_range_index_error_witness:
  "wf_board new_board \<and> ((3::int) < - 3 \<or> 2 < (3::int) \<or> (0::int) < - 3 \<or> 2 < (0::int))
   \<and> set_cell_value new_board 3 0 ''X'' = (Inl IndexError, new_board)
   \<and> fst (set_cell_value new_board 3 0 ''X'') \<noteq> Inl CellIsNotEmptyError"
proof -
  have h: "(3::int) < - 3 \<or> 2 < (3::int) \<or> (0::int) < - 3 \<or> 2 < (0::int)" by simp
  show ?thesis
    using out_of_range_index_error [OF wf_new_board h, of "''X''"] wf_new_board by simp
qed

text \<open>
  Against claim C4 as stated: on the new board, the placement at row 3 raises IndexError,
  not CellIsNotEmptyError; and the placement at (-1, -1), which lies outside 0..2 as well,
  succeeds and writes the last cell of the last row.
\<close>

theorem out_of_range_counterexample:
  "\<not> in_range 3 \<and> fst (set_cell_value new_board 3 0 ''X'') = Inl IndexError
   \<and> fst (set_cell_value new_board 3 0 ''X'') \<noteq> Inl CellIsNotEmptyError
   \<and> \<not> in_range (- 1)
   \<and> set_cell_value new_board (- 1) (- 1) ''X'' =
       (Inr (- 1, - 1), [['' '', '' '', '' ''], ['' '', '' '', '' ''], ['' '', '' '', ''X'']])"
  by (simp add: in_range_def new_board_grid set_cell_value_def is_cell_empty_def store_cell_def
      setitem_def cell_simps)

subsection \<open>Winning\<close>

lemma check_winner_grid:
  "check_winner [[a0, a1, a2], [b0, b1, b2], [c0, c1, c2]] pv =
     Inr ((a0 = pv \<and> a1 = pv \<and> a2 = pv) \<or> (b0 = pv \<and> b1 = pv \<and> b2 = pv)
       \<or> (c0 = pv \<and> c1 = pv \<and> c2 = pv) \<or> (a0 = pv \<and> b0 = pv \<and> c0 = pv)
       \<or> (a1 = pv \<and> b1 = pv \<and> c1 = pv) \<or> (a2 = pv \<and> b2 = pv \<and> c2 = pv)
       \<or> (a0 = pv \<and> b1 = pv \<and> c2 = pv) \<or> (a2 = pv \<and> b1 = pv \<and> c0 = pv))"
  by (simp add: check_winner_def cell_simps)

lemma lines_grid:
  "list_ex (holds_line [[a0, a1, a2], [b0, b1, b2], [c0, c1, c2]] pv) win_lines =
     ((a0 = pv \<and> a1 = pv \<and> a2 = pv) \<or> (b0 = pv \<and> b1 = pv \<and> b2 = pv)
       \<or> (c0 = pv \<and> c1 = pv \<and> c2 = pv) \<or> (a0 = pv \<and> b0 = pv \<and> c0 = pv)
       \<or> (a1 = pv \<and> b1 = pv \<and> c1 = pv) \<or> (a2 = pv \<and> b2 = pv \<and> c2 = pv)
       \<or> (a0 = pv \<and> b1 = pv \<and> c2 = pv) \<or> (a2 = pv \<and> b1 = pv \<and> c0 = pv))"
  by (simp add: win_lines_def holds_line_def cell_simps)

lemma few_marks_no_line:
  assumes "count_mark [[a0, a1, a2], [b0, b1, b2], [c0, c1, c2]] pv < 3"
  shows "\<not> ((a0 = pv \<and> a1 = pv \<and> a2 = pv) \<or> (b0 = pv \<and> b1 = pv \<and> b2 = pv)
       \<or> (c0 = pv \<and> c1 = pv \<and> c2 = pv) \<or> (a0 = pv \<and> b0 = pv \<and> c0 = pv)
       \<or> (a1 = pv \<and> b1 = pv \<and> c1 = pv) \<or> (a2 = pv \<and> b2 = pv \<and> c2 = pv)
       \<or> (a0 = pv \<and> b1 = pv \<and> c2 = pv) \<or> (a2 = pv \<and> b1 = pv \<and> c0 = pv))"
proof -
  have step: "length (filter P (x # xs)) = (if P x then 1 else 0) + length (filter P xs)"
    for P :: "string \<Rightarrow> bool" and x xs
    by simp
  from assms show ?thesis
    unfolding count_mark_def concat.simps append.simps step
    by (auto split: if_splits)
qed

text \<open>
  Claim C1. On a 3x3 board, \<open>check_winner\<close> returns (it raises nothing) and its answer is
  true exactly when one of the eight lines has the mark in all three cells. It is false when
  fewer than three cells hold the mark, and false on the new board for every mark that is
  not the blank, so for X and for O.
\<close>

theorem check_winner_iff_line:
  assumes "wf_board b"
  shows "check_winner b mark = Inr (list_ex (holds_line b mark) win_lines)
       \<and> (count_mark b mark < 3 \<longrightarrow> check_winner b mark = Inr False)
       \<and> (mark \<noteq> '' '' \<longrightarrow> check_winner new_board mark = Inr False)"
proof -
  from assms obtain a0 a1 a2 b0 b1 b2 c0 c1 c2
    where b: "b = [[a0, a1, a2], [b0, b1, b2], [c0, c1, c2]]"
    by (rule wf_board_shape)
  have "check_winner b mark = Inr (list_ex (holds_line b mark) win_lines)"
    unfolding b check_winner_grid lines_grid ..
  moreover have "check_winner b mark = Inr False" if "count_mark b mark < 3"
    using few_marks_no_line [OF that [unfolded b]] unfolding b check_winner_grid by simp
  moreover have "check_winner new_board mark = Inr False" if "mark \<noteq> '' ''"
    using that unfolding new_board_grid check_winner_grid by auto
  ultimately show ?thesis by blast
qed

theorem check_winner_iff_line_witness:
  "wf_board demo_board \<and> check_winner demo_board ''X'' = Inr True
   \<and> list_ex (holds_line demo_board ''X'') win_lines
   \<and> count_mark demo_board ''O'' < 3 \<and> check_winner demo_board ''O'' = Inr False
   \<and> ''X'' \<noteq> '' '' \<and> check_winner new_board ''X'' = Inr False"
proof -
  have l: "list_ex (holds_line demo_board ''X'') win_lines"
    by (simp add: demo_board_def lines_grid)
  have c: "count_mark demo_board ''O'' < 3" by (simp add: count_mark_def demo_board_def)
  show ?thesis
    using check_winner_iff_line [OF wf_demo_board, of "''X''"]
      check_winner_iff_line [OF wf_demo_board, of "''O''"] wf_demo_board l c
    by auto
qed

subsection \<open>Empty spots and the full board\<close>

lemma get_empty_spots_grid:
  "get_empty_spots [[a0, a1, a2], [b0, b1, b2], [c0, c1, c2]] =
     Inr (filter (\<lambda>(i, j). cell [[a0, a1, a2], [b0, b1, b2], [c0, c1, c2]] i j = Inr '' '')
            all_spots)"
  by (simp add: get_empty_spots_def all_spots_def cell_simps)

lemma get_empty_spots_filter:
  assumes "wf_board b"
  shows "get_empty_spots b = Inr (filter (\<lambda>(i, j). cell b i j = Inr '' '') all_spots)"
proof -
  from assms obtain a0 a1 a2 b0 b1 b2 c0 c1 c2
    where b: "b = [[a0, a1, a2], [b0, b1, b2], [c0, c1, c2]]"
    by (rule wf_board_shape)
  show ?thesis unfolding b by (rule get_empty_spots_grid)
qed

lemma is_full_iff_cells:
  assumes "wf_board b"
  shows "is_full b \<longleftrightarrow> (\<forall>p \<in> set all_spots. cell b (fst p) (snd p) \<noteq> Inr '' '')"
proof -
  from assms obtain a0 a1 a2 b0 b1 b2 c0 c1 c2
    where b: "b = [[a0, a1, a2], [b0, b1, b2], [c0, c1, c2]]"
    by (rule wf_board_shape)
  show ?thesis unfolding b by (simp add: is_full_def all_spots_def cell_simps)
qed

lemma all_spots_row_major: "sorted_wrt row_major all_spots"
  by (simp add: all_spots_def row_major_def)

lemma all_spots_card: "distinct all_spots" "length all_spots = 9"
  by (simp_all add: all_spots_def)

text \<open>
  Claim C8. On a 3x3 board, \<open>get_empty_spots\<close> returns a list whose elements are exactly
  the coordinates of the grid whose cell is blank, in strictly increasing row-major order:
  it is the list of the nine coordinates, row by row, with the occupied ones left out.
\<close>

theorem get_empty_spots_row_major:
  assumes "wf_board b"
  shows "\<exists>spots. get_empty_spots b = Inr spots
           \<and> set spots = {(r, c). in_range r \<and> in_range c \<and> cell b r c = Inr '' ''}
           \<and> sorted_wrt row_major spots
           \<and> spots = filter (\<lambda>(i, j). cell b i j = Inr '' '') all_spots"
proof -
  let ?spots = "filter (\<lambda>(i, j). cell b i j = Inr '' '') all_spots"
  have "get_empty_spots b = Inr ?spots" using assms by (rule get_empty_spots_filter)
  moreover have "set ?spots = {(r, c). in_range r \<and> in_range c \<and> cell b r c = Inr '' ''}"
    using in_range_all_spots by auto
  moreover have "sorted_wrt row_major ?spots"
    using all_spots_row_major by (rule sorted_wrt_filter)
  ultimately show ?thesis by blast
qed

theorem get_empty_spots_row_major_witness:
  "wf_board demo_board
   \<and> (\<exists>spots. get_empty_spots demo_board = Inr spots
        \<and> spots = [(0, 2), (1, 0), (1, 2), (2, 1)]
        \<and> set spots = {(r, c). in_range r \<and> in_range c \<and> cell demo_board r c = Inr '' ''}
        \<and> sorted_wrt row_major spots)"
proof -
  have "filter (\<lambda>(i, j). cell demo_board i j = Inr '' '') all_spots
      = [(0, 2), (1, 0), (1, 2), (2, 1)]"
    by (simp add: demo_board_def all_spots_def cell_simps)
  with get_empty_spots_row_major [OF wf_demo_board] wf_demo_board show ?thesis by auto
qed

text \<open>
  Claim C10. On a 3x3 board, \<open>is_full\<close> is true exactly when \<open>get_empty_spots\<close> returns
  the empty list.
\<close>

theorem is_full_iff_no_empty_spots:
  assumes "wf_board b"
  shows "is_full b \<longleftrightarrow> get_empty_spots b = Inr []"
  unfolding get_empty_spots_filter [OF assms] is_full_iff_cells [OF assms]
  by (auto simp: filter_empty_conv)

theorem is_full_iff_no_empty_spots_witness:
  "wf_board demo_board \<and> \<not> is_full demo_board \<and> get_empty_spots demo_board \<noteq> Inr []"
proof -
  have "\<not> is_full demo_board" by (simp add: is_full_def demo_board_def)
  with is_full_iff_no_empty_spots [OF wf_demo_board] wf_demo_board show ?thesis by simp
qed

subsection \<open>The random player\<close>

text \<open>Every index of the list is drawn by some state of the random source.\<close>

lemma choice_index: "k < length xs \<Longrightarrow> choice k xs = Inr (xs ! k)"
  by (auto simp: choice_def)

lemma blank_cell_spot:
  assumes "wf_board b" "'' '' \<in> set (concat b)"
  shows "\<exists>p \<in> set all_spots. cell b (fst p) (snd p) = Inr '' ''"
proof -
  from assms(1) obtain a0 a1 a2 b0 b1 b2 c0 c1 c2
    where b: "b = [[a0, a1, a2], [b0, b1, b2], [c0, c1, c2]]"
    by (rule wf_board_shape)
  from assms(2) show ?thesis unfolding b by (auto simp: all_spots_def cell_simps)
qed

text \<open>
  Claim C7. On a 3x3 board with a blank cell, \<open>CPUPlayer.move\<close> returns, whatever the
  random source draws, a coordinate that is an element of the list \<open>get_empty_spots\<close>
  returns; the coordinate lies in the grid and its cell is blank.
\<close>

theorem cpu_move_in_empty_spots:
  assumes "wf_board b" and "'' '' \<in> set (concat b)"
  shows "\<exists>spots p. get_empty_spots b = Inr spots \<and> CPUPlayer_move rnd b = Inr p
           \<and> p \<in> set spots \<and> in_range (fst p) \<and> in_range (snd p)
           \<and> cell b (fst p) (snd p) = Inr '' ''"
proof -
  let ?spots = "filter (\<lambda>(i, j). cell b i j = Inr '' '') all_spots"
  let ?p = "?spots ! (rnd mod length ?spots)"
  have spots: "get_empty_spots b = Inr ?spots" using assms(1) by (rule get_empty_spots_filter)
  from blank_cell_spot [OF assms] have ne: "?spots \<noteq> []"
    by (auto simp: filter_empty_conv)
  then have mv: "CPUPlayer_move rnd b = Inr ?p"
    by (simp add: CPUPlayer_move_def spots choice_def)
  from ne have mem: "?p \<in> set ?spots" by (intro nth_mem) simp
  then have "?p \<in> set all_spots" and "cell b (fst ?p) (snd ?p) = Inr '' ''"
    by (auto simp del: nth_mem)
  with spots mv mem show ?thesis
    using in_range_all_spots [of "fst ?p" "snd ?p"] by (auto simp del: nth_mem)
qed

theorem cpu_move_in_empty_spots_witness:
  "wf_board demo_board \<and> '' '' \<in> set (concat demo_board)
   \<and> get_empty_spots demo_board = Inr [(0, 2), (1, 0), (1, 2), (2, 1)]
   \<and> CPUPlayer_move 7 demo_board = Inr (2, 1)
   \<and> (\<exists>spots p. get_empty_spots demo_board = Inr spots \<and> CPUPlayer_move 7 demo_board = Inr p
         \<and> p \<in> set spots)"
proof -
  have blank: "'' '' \<in> set (concat demo_board)" by (simp add: demo_board_def)
  have spots: "get_empty_spots demo_board = Inr [(0, 2), (1, 0), (1, 2), (2, 1)]"
    by (simp add: demo_board_def get_empty_spots_grid all_spots_def cell_simps)
  have mv: "CPUPlayer_move 7 demo_board = Inr (2, 1)"
    by (simp add: CPUPlayer_move_def spots choice_def)
  from cpu_move_in_empty_spots [OF wf_demo_board blank, of 7] wf_demo_board blank spots mv
  show ?thesis by blast
qed

subsection \<open>Sequences of placements\<close>

lemma placement_step:
  assumes "wf_board b" "in_range r" "in_range c" "cell b r c = Inr '' ''"
  shows "\<exists>b'. set_cell_value b r c v = (Inr (r, c), b') \<and> wf_board b'
           \<and> (\<forall>r' c'. in_range r' \<longrightarrow> in_range c' \<longrightarrow>
                 cell b' r' c' = (if (r', c') = (r, c) then Inr v else cell b r' c'))"
proof -
  let ?b' = "b[nat r := (b ! nat r)[nat c := v]]"
  have r3: "nat r < 3" using assms(2) by (rule in_range_nat)
  have c3: "nat c < 3" using assms(3) by (rule in_range_nat)
  have res: "set_cell_value b r c v = (Inr (r, c), ?b')" using assms by (rule set_cell_value_empty)
  have wf': "wf_board ?b'" using assms(1) r3 by (rule wf_board_update)
  have "cell ?b' r' c' = (if (r', c') = (r, c) then Inr v else cell b r' c')"
    if "in_range r'" "in_range c'" for r' c'
  proof -
    have eq: "nat r' = nat r \<longleftrightarrow> r' = r" "nat c' = nat c \<longleftrightarrow> c' = c"
      using that assms(2,3) by (auto simp: in_range_def)
    have "length b = 3" "length (b ! nat r) = 3"
      using assms(1) wf_row [OF assms(1) r3] by (simp_all add: wf_board_def)
    then show ?thesis
      using cell_in_range [OF wf' that] cell_in_range [OF assms(1) that] r3 c3 eq
      by (auto simp: nth_list_update)
  qed
  with res wf' show ?thesis by blast
qed

lemma place_all_blank:
  assumes "wf_board b"
    and "\<forall>p \<in> set ps. in_range (fst p) \<and> in_range (fst (snd p)) \<and> snd (snd p) \<noteq> '' ''
           \<and> cell b (fst p) (fst (snd p)) = Inr '' ''"
    and "distinct (map spot_of ps)"
  shows "\<exists>b'. place_all b ps = (Inr (), b') \<and> wf_board b'
           \<and> (\<forall>r c. in_range r \<longrightarrow> in_range c \<longrightarrow>
                 (cell b' r c = Inr '' '' \<longleftrightarrow>
                    cell b r c = Inr '' '' \<and> (r, c) \<notin> set (map spot_of ps)))"
  using assms
proof (induction ps arbitrary: b)
  case Nil
  then show ?case by simp
next
  case (Cons p ps)
  obtain r c v where p: "p = (r, c, v)" by (cases p)
  from Cons.prems(2) p have rc: "in_range r" "in_range c" "v \<noteq> '' ''" "cell b r c = Inr '' ''"
    by simp_all
  from placement_step [OF Cons.prems(1) rc(1,2,4), of v] obtain b1
    where b1: "set_cell_value b r c v = (Inr (r, c), b1)" "wf_board b1"
      and cells: "\<And>r' c'. in_range r' \<Longrightarrow> in_range c' \<Longrightarrow>
                 cell b1 r' c' = (if (r', c') = (r, c) then Inr v else cell b r' c')"
    by blast
  have sp: "spot_of p = (r, c)" using p by (simp add: spot_of_def)
  from Cons.prems(3) have "spot_of p \<notin> set (map spot_of ps)" and dist: "distinct (map spot_of ps)"
    by simp_all
  with sp have notin: "(r, c) \<notin> set (map spot_of ps)" by simp
  have pre: "\<forall>q \<in> set ps. in_range (fst q) \<and> in_range (fst (snd q)) \<and> snd (snd q) \<noteq> '' ''
           \<and> cell b1 (fst q) (fst (snd q)) = Inr '' ''"
  proof
    fix q assume q: "q \<in> set ps"
    with Cons.prems(2) have h: "in_range (fst q)" "in_range (fst (snd q))" "snd (snd q) \<noteq> '' ''"
      "cell b (fst q) (fst (snd q)) = Inr '' ''" by simp_all
    from q notin have "(fst q, fst (snd q)) \<noteq> (r, c)" by (force simp: spot_of_def)
    with cells [OF h(1,2)] h
    show "in_range (fst q) \<and> in_range (fst (snd q)) \<and> snd (snd q) \<noteq> '' ''
           \<and> cell b1 (fst q) (fst (snd q)) = Inr '' ''" by auto
  qed
  from Cons.IH [OF b1(2) pre dist] obtain b' where
    b': "place_all b1 ps = (Inr (), b')" "wf_board b'"
    and cells': "\<And>r' c'. in_range r' \<Longrightarrow> in_range c' \<Longrightarrow>
        (cell b' r' c' = Inr '' '' \<longleftrightarrow>
           cell b1 r' c' = Inr '' '' \<and> (r', c') \<notin> set (map spot_of ps))"
    by blast
  have "place_all b (p # ps) = (Inr (), b')" using p b1(1) b'(1) by simp
  moreover have "cell b' r' c' = Inr '' '' \<longleftrightarrow>
      cell b r' c' = Inr '' '' \<and> (r', c') \<notin> set (map spot_of (p # ps))"
    if "in_range r'" "in_range c'" for r' c'
    using cells' [OF that] cells [OF that] rc(3) sp by auto
  ultimately show ?case using b'(2) by blast
qed

lemma new_board_blank: "in_range r \<Longrightarrow> in_range c \<Longrightarrow> cell new_board r c = Inr '' ''"
  unfolding in_range_cases new_board_grid by (auto simp: cell_simps)

text \<open>
  Claim C6. Take any sequence of placements at coordinates of the grid, no coordinate
  twice, each with the mark X or O, and carry it out on the new board. Every placement
  succeeds, and on the board that results \<open>is_full\<close> is true exactly when the sequence has
  nine placements, and exactly when no cell of the grid is blank.
\<close>

theorem is_full_iff_nine_placements:
  assumes "\<forall>p \<in> set ps. valid_placement p" and "distinct (map spot_of ps)"
  shows "\<exists>b. place_all new_board ps = (Inr (), b)
           \<and> (is_full b \<longleftrightarrow> length ps = 9)
           \<and> (is_full b \<longleftrightarrow> (\<forall>p \<in> set all_spots. cell b (fst p) (snd p) \<noteq> Inr '' ''))"
proof -
  have pre: "\<forall>p \<in> set ps. in_range (fst p) \<and> in_range (fst (snd p)) \<and> snd (snd p) \<noteq> '' ''
           \<and> cell new_board (fst p) (fst (snd p)) = Inr '' ''"
    using assms(1) by (auto simp: valid_placement_def new_board_blank)
  from place_all_blank [OF wf_new_board pre assms(2)] obtain b where
    b: "place_all new_board ps = (Inr (), b)" "wf_board b"
    and cells: "\<And>r c. in_range r \<Longrightarrow> in_range c \<Longrightarrow>
        (cell b r c = Inr '' '' \<longleftrightarrow>
           cell new_board r c = Inr '' '' \<and> (r, c) \<notin> set (map spot_of ps))"
    by blast
  have sub: "set (map spot_of ps) \<subseteq> set all_spots"
    using assms(1) in_range_all_spots by (auto simp: valid_placement_def spot_of_def)
  have full: "is_full b \<longleftrightarrow> set all_spots \<subseteq> set (map spot_of ps)"
  proof -
    have "is_full b \<longleftrightarrow> (\<forall>p \<in> set all_spots. cell b (fst p) (snd p) \<noteq> Inr '' '')"
      using b(2) by (rule is_full_iff_cells)
    also have "\<dots> \<longleftrightarrow> (\<forall>p \<in> set all_spots. p \<in> set (map spot_of ps))"
    proof (rule ball_cong [OF refl])
      fix p assume "p \<in> set all_spots"
      then have "in_range (fst p)" "in_range (snd p)"
        using in_range_all_spots [of "fst p" "snd p"] by simp_all
      then show "cell b (fst p) (snd p) \<noteq> Inr '' '' \<longleftrightarrow> p \<in> set (map spot_of ps)"
        using cells [of "fst p" "snd p"] new_board_blank [of "fst p" "snd p"] by simp
    qed
    finally show ?thesis by blast
  qed
  have card_ps: "card (set (map spot_of ps)) = length ps"
    using distinct_card [OF assms(2)] by simp
  have card_all: "card (set all_spots) = 9"
    using distinct_card [OF all_spots_card(1)] all_spots_card(2) by simp
  have "set all_spots \<subseteq> set (map spot_of ps) \<longleftrightarrow> length ps = 9"
  proof
    assume "set all_spots \<subseteq> set (map spot_of ps)"
    with sub have "set (map spot_of ps) = set all_spots" by blast
    with card_ps card_all show "length ps = 9" by simp
  next
    assume "length ps = 9"
    with card_ps card_all have "card (set (map spot_of ps)) = card (set all_spots)" by simp
    with sub have "set (map spot_of ps) = set all_spots"
      by (intro card_subset_eq) simp_all
    then show "set all_spots \<subseteq> set (map spot_of ps)" by simp
  qed
  with full b is_full_iff_cells [OF b(2)] show ?thesis by blast
qed

theorem is_full_iff_nine_placements_witness:
  "list_all valid_placement demo_moves \<and> distinct (map spot_of demo_moves)
   \<and> length demo_moves = 9
   \<and> (\<exists>b. place_all new_board demo_moves = (Inr (), b) \<and> is_full b)"
proof -
  have v: "\<forall>p \<in> set demo_moves. valid_placement p"
    by (simp add: demo_moves_def valid_placement_def in_range_def)
  have d: "distinct (map spot_of demo_moves)" by (simp add: demo_moves_def spot_of_def)
  have l: "length demo_moves = 9" by (simp add: demo_moves_def)
  from is_full_iff_nine_placements [OF v d] v d l show ?thesis
    by (auto simp: list_all_iff)
qed

subsection \<open>The human player\<close>

lemmas read_simps = Player_move_def read_move_def py_split_def py_int_def py_digits_def
  int_max_str_digits_def is_space_def is_digit_def digit_of_def is_cell_empty_def cell_simps

text \<open>
  Claim C3 asks that no line of input makes \<open>Player.move\<close> raise and that the coordinate
  returned lies in 0..2. The code does otherwise. On the new board, a first line that is no
  pair of integers is caught and reported, and then the occupancy check reads \<open>row\<close> and
  \<open>col\<close>, which are unbound: UnboundLocalError leaves the loop. The line \<open>5 5\<close> makes the
  occupancy check raise IndexError, outside the \<open>try\<close>, and the lines after it are never
  read. The line \<open>-1 -1\<close> is accepted and returned as it is.
\<close>

theorem malformed_input_escapes:
  "Player_move new_board [''a b''] = (Inl UnboundLocalError, [])
   \<and> Player_move new_board [''5 5'', ''1 1''] = (Inl IndexError, [''1 1''])
   \<and> Player_move new_board [''-1 -1''] = (Inr (- 1, - 1), [])"
  by (simp add: new_board_grid read_simps)

text \<open>What the loop does return denotes a blank cell, and the placement there succeeds.\<close>

lemma placement_after_check:
  assumes "is_cell_empty b row col = Inr True"
  shows "\<exists>b'. set_cell_value b row col v = (Inr (row, col), b')"
  using assms
  by (auto simp: set_cell_value_def is_cell_empty_def cell_norm store_cell_def setitem_def
      split: option.splits sum.splits)

lemma Player_move_loop_empty:
  "Player_move_loop b vars lines = (Inr (row, col), rest) \<Longrightarrow> is_cell_empty b row col = Inr True"
proof (induction lines arbitrary: vars)
  case Nil
  then show ?case by simp
next
  case (Cons l ls)
  then show ?case
    by (auto simp: Let_def split: option.splits sum.splits if_splits)
qed

lemma Player_move_placement:
  assumes "Player_move b lines = (Inr (row, col), rest)"
  shows "\<exists>b'. set_cell_value b row col v = (Inr (row, col), b')"
  using assms unfolding Player_move_def
  by (intro placement_after_check) (rule Player_move_loop_empty)

text \<open>A negative index from -3 to -1 reads the cell three further on.\<close>

lemma negative_index_alias:
  assumes "wf_board b" "- 3 \<le> row" "row < 0" "- 3 \<le> col" "col < 0"
  shows "cell b row col = cell b (row + 3) (col + 3)"
proof -
  have "norm_index 3 row = norm_index 3 (row + 3)" "norm_index 3 col = norm_index 3 (col + 3)"
    using assms(2-5) by (simp_all add: norm_index_def)
  moreover have "norm_index 3 (row + 3) = Some (nat (row + 3))" "nat (row + 3) < 3"
    using assms(2,3) by (simp_all add: norm_index_def)
  ultimately show ?thesis
    using assms(1) wf_row [of b "nat (row + 3)"] by (simp add: cell_norm wf_board_def)
qed

subsection \<open>The session\<close>

lemma main_start_cases:
  "main_start rnd1 rnd2 =
     \<lparr>human_value = ''X'', cpu_value = ''O'', current_player = Human, board = new_board\<rparr>
   \<or> main_start rnd1 rnd2 =
     \<lparr>human_value = ''O'', cpu_value = ''X'', current_player = CPU, board = new_board\<rparr>"
proof -
  have "rnd1 mod 2 = 0 \<or> rnd1 mod 2 = 1" "rnd2 mod 2 = 0 \<or> rnd2 mod 2 = 1" by arith+
  then show ?thesis
    by (auto simp: main_start_def get_shuffled_players_def shuffle2_def PLAYERS_VALUES_def)
qed

text \<open>
  Claim C9. Whatever the two shuffles draw, the player that \<open>main\<close> lets begin is the one
  whose value is X: the human when the human got X and the machine got O, the machine when
  the machine got X and the human got O.
\<close>

theorem first_player_holds_X:
  "player_value (main_start rnd1 rnd2) (current_player (main_start rnd1 rnd2)) = ''X''
   \<and> (current_player (main_start rnd1 rnd2) = Human
        \<and> human_value (main_start rnd1 rnd2) = ''X'' \<and> cpu_value (main_start rnd1 rnd2) = ''O''
      \<or> current_player (main_start rnd1 rnd2) = CPU
        \<and> cpu_value (main_start rnd1 rnd2) = ''X'' \<and> human_value (main_start rnd1 rnd2) = ''O'')"
  using main_start_cases [of rnd1 rnd2] by (auto simp: player_value_def)

text \<open>The only exception the reads and checks of the program raise by themselves is IndexError.\<close>

lemma cell_error: "cell b r c = Inl e \<Longrightarrow> e = IndexError"
  by (auto simp: cell_norm split: option.splits)

lemma is_cell_empty_error: "is_cell_empty b r c = Inl e \<Longrightarrow> e = IndexError"
  by (auto simp: is_cell_empty_def split: sum.splits dest: cell_error)

lemma Player_move_loop_error:
  "Player_move_loop b vars lines = (Inl e, rest) \<Longrightarrow> e \<noteq> CellIsNotEmptyError"
proof (induction lines arbitrary: vars)
  case Nil
  then show ?case by auto
next
  case (Cons l ls)
  have err: "is_cell_empty b r c \<noteq> Inl CellIsNotEmptyError" for r c
    using is_cell_empty_error [of b r c CellIsNotEmptyError] by auto
  from Cons show ?case
    by (auto simp: Let_def err split: option.splits sum.splits if_splits)
qed

text \<open>The machine returns a coordinate whose cell it has just seen blank.\<close>

lemma empty_among_filter:
  "empty_among b ps = Inr found \<Longrightarrow>
   found = filter (\<lambda>(i, j). cell b i j = Inr '' '') ps"
proof (induction ps arbitrary: found)
  case Nil
  then show ?case by simp
next
  case (Cons q ps)
  obtain i j where q: "q = (i, j)" by (cases q)
  from Cons.prems obtain v rest where v: "cell b i j = Inr v" and rest: "empty_among b ps = Inr rest"
    and found: "found = (if v = '' '' then (i, j) # rest else rest)"
    unfolding q by (auto split: sum.splits)
  from Cons.IH [OF rest] v found show ?case unfolding q by auto
qed

lemma empty_among_blank:
  assumes "empty_among b ps = Inr found" "p \<in> set found"
  shows "is_cell_empty b (fst p) (snd p) = Inr True"
  using assms(2) unfolding empty_among_filter [OF assms(1)]
  by (auto simp: is_cell_empty_def)

lemma empty_among_error: "empty_among b ps = Inl e \<Longrightarrow> e = IndexError"
proof (induction ps)
  case Nil
  then show ?case by simp
next
  case (Cons q ps)
  obtain i j where q: "q = (i, j)" by (cases q)
  from Cons.prems Cons.IH cell_error [of b i j e] show ?case unfolding q
    by (auto split: sum.splits)
qed

lemma CPUPlayer_move_blank:
  assumes "CPUPlayer_move rnd b = Inr (row, col)"
  shows "is_cell_empty b row col = Inr True"
proof -
  from assms obtain spots where spots: "get_empty_spots b = Inr spots"
    and ch: "choice rnd spots = Inr (row, col)"
    by (auto simp: CPUPlayer_move_def split: sum.splits)
  from ch have "spots \<noteq> []" and "(row, col) = spots ! (rnd mod length spots)"
    by (auto simp: choice_def split: if_splits)
  then have "(row, col) \<in> set spots" by simp
  with spots show ?thesis
    using empty_among_blank [of b _ spots "(row, col)"] by (simp add: get_empty_spots_def)
qed

lemma CPUPlayer_move_error: "CPUPlayer_move rnd b = Inl e \<Longrightarrow> e = IndexError"
  using empty_among_error [of b _ e]
  by (auto simp: CPUPlayer_move_def get_empty_spots_def choice_def
      split: sum.splits if_splits)

text \<open>So does whichever player is to move; and a move never raises CellIsNotEmptyError.\<close>

lemma current_move_blank:
  assumes "current_move g rnd lines = (Inr (row, col), rest)"
  shows "is_cell_empty (board g) row col = Inr True"
proof (cases "current_player g")
  case Human
  with assms show ?thesis
    by (auto simp: current_move_def Player_move_def dest: Player_move_loop_empty)
next
  case CPU
  with assms show ?thesis
    by (auto simp: current_move_def dest: CPUPlayer_move_blank)
qed

lemma current_move_error:
  "current_move g rnd lines = (Inl e, rest) \<Longrightarrow> e \<noteq> CellIsNotEmptyError"
  using Player_move_loop_error [of "board g" None lines e rest]
    CPUPlayer_move_error [of rnd "board g" e]
  by (cases "current_player g") (auto simp: current_move_def Player_move_def)

lemma all_at_error: "all_at b pv ps = Inl e \<Longrightarrow> e = IndexError"
proof (induction ps)
  case Nil
  then show ?case by simp
next
  case (Cons q ps)
  obtain i j where q: "q = (i, j)" by (cases q)
  from Cons.prems Cons.IH cell_error [of b i j e] show ?case unfolding q
    by (auto split: sum.splits if_splits)
qed

lemma getitem_error: "getitem xs i = Inl e \<Longrightarrow> e = IndexError"
  by (auto simp: getitem_def split: option.splits)

lemma rows_cols_error: "rows_cols b pv xs = Inl e \<Longrightarrow> e = IndexError"
proof (induction xs)
  case Nil
  then show ?case by simp
next
  case (Cons i xs)
  from Cons.prems Cons.IH getitem_error [of b i e] all_at_error [of b pv _ e] show ?case
    by (auto split: sum.splits if_splits)
qed

lemma check_winner_error: "check_winner b pv = Inl e \<Longrightarrow> e = IndexError"
  using rows_cols_error [of b pv _ e] all_at_error [of b pv _ e]
  by (auto simp: check_winner_def simp del: all_at.simps rows_cols.simps
      split: sum.splits if_splits)

lemma turn_after_check:
  assumes "is_cell_empty (board g) row col = Inr True"
  shows "fst (turn g (row, col)) \<noteq> Inl CellIsNotEmptyError"
proof -
  from placement_after_check [OF assms, of "player_value g (current_player g)"]
  obtain b' where
    "set_cell_value (board g) row col (player_value g (current_player g)) = (Inr (row, col), b')"
    by blast
  then show ?thesis
    using check_winner_error [of b' "player_value g (current_player g)" CellIsNotEmptyError]
    by (auto simp: turn_def Let_def split: sum.splits)
qed

lemma main_pass_no_invalid_move:
  "fst (fst (main_pass g rnd lines)) \<noteq> Inl CellIsNotEmptyError"
proof (cases "current_move g rnd lines")
  case (Pair res rest)
  show ?thesis
  proof (cases res)
    case (Inl e)
    with Pair current_move_error [of g rnd lines e rest] show ?thesis
      by (simp add: main_pass_def)
  next
    case (Inr rc)
    obtain row col where rc: "rc = (row, col)" by (cases rc)
    from Pair Inr rc have "is_cell_empty (board g) row col = Inr True"
      by (intro current_move_blank) simp
    from turn_after_check [OF this] Pair Inr rc show ?thesis
      by (simp add: main_pass_def)
  qed
qed

text \<open>Every board the loop of \<open>main\<close> works on is a 3x3 grid.\<close>

lemma turn_board:
  "board (snd (turn g rc)) =
     snd (set_cell_value (board g) (fst rc) (snd rc) (player_value g (current_player g)))"
  by (simp add: turn_def Let_def split: prod.splits sum.splits)

lemma main_pass_board:
  assumes "wf_board (board g)"
  shows "wf_board (board (snd (fst (main_pass g rnd lines))))"
proof (cases "current_move g rnd lines")
  case (Pair res rest)
  with assms show ?thesis
    by (cases res) (simp_all add: main_pass_def turn_board set_cell_value_wf)
qed

lemma reachable_wf: "reachable g \<Longrightarrow> wf_board (board g)"
proof (induction rule: reachable.induct)
  case (start rnd1 rnd2)
  show ?case by (simp add: main_start_def Let_def wf_new_board)
next
  case (step g rnd lines p g' rest)
  from main_pass_board [OF step.IH, of rnd lines] step.hyps(2) show ?case by simp
qed




end
